theory Spec2Isabelle
  imports Main "HOL-Library.Word"
begin

section \<open>Sliding-window flood control: the embedding of \<open>main.go\<close>\<close>

subsection \<open>Data\<close>

text \<open>
  An instant is the reading of the process clock that \<open>time.Now()\<close> returns, in
  nanoseconds; a \<open>time.Duration\<close> is a signed 64-bit count of nanoseconds. The clock is
  an input of the model: \<open>Check\<close> receives the instant that its call of \<open>time.Now()\<close>
  yields.
\<close>

type_synonym instant = int
type_synonym duration = int
type_synonym key = "64 word"
type_synonym addr = nat

text \<open>
  \<open>container/list\<close> stores values of type \<open>any\<close>. The code only asks whether a value is
  a \<open>time.Time\<close>, so a value is either an instant or something else.
\<close>

datatype any = Time instant | Other

datatype error =
    NotATime        \<comment> \<open>the error of line 51: the queue holds something that is not a time\<close>
  | LimitExceeded   \<comment> \<open>the error of line 63: the maximum number of requests is exceeded\<close>

text \<open>
  The struct \<open>FloodControlImpl\<close>. The mutex is held for the whole body of \<open>Check\<close>, so
  a call is one atomic step of the model and the field \<open>mu\<close> carries no data. A lookup
  \<open>fc.requests[userID]\<close> yields \<open>nil\<close> for a key without entry; \<open>None\<close> stands for that
  result.
\<close>

record FloodControlImpl =
  requests :: "key \<rightharpoonup> addr"
  timeInterval :: duration
  maxRequests :: int

text \<open>
  The map holds pointers \<open>*list.List\<close>, and \<open>Check\<close> mutates the list it points to in
  place. The store of lists is explicit: an address is an index into it, and the
  addresses below its length are the allocated ones.
\<close>

type_synonym heap = "any list list"
type_synonym state = "heap \<times> FloodControlImpl"

subsection \<open>Operations\<close>

definition maxDuration :: duration where
  "maxDuration = 2 ^ 63 - 1"

definition minDuration :: duration where
  "minDuration = - (2 ^ 63)"

text \<open>\<open>t.Sub(u)\<close> is the difference of the two readings, saturated to the range of a duration.\<close>

definition Sub :: "instant \<Rightarrow> instant \<Rightarrow> duration" where
  "Sub t u =
     (if t - u > maxDuration then maxDuration
      else if t - u < minDuration then minDuration
      else t - u)"

definition NewFloodControl :: "duration \<Rightarrow> int \<Rightarrow> FloodControlImpl" where
  "NewFloodControl ti mr = \<lparr>requests = Map.empty, timeInterval = ti, maxRequests = mr\<rparr>"

text \<open>\<open>list.New()\<close>: a fresh empty list, at an address not in use.\<close>

definition list_New :: "heap \<Rightarrow> heap \<times> addr" where
  "list_New h = (h @ [[]], length h)"

text \<open>
  The loop of lines 48 to 59 on the content of the list, front first. It returns whether
  it ended without the type error, and what is left of the list: the removals made before
  a type error stay, since the list is changed in place.
\<close>

fun evict :: "instant \<Rightarrow> duration \<Rightarrow> any list \<Rightarrow> bool \<times> any list" where
  "evict now ti [] = (True, [])"
| "evict now ti (Other # rest) = (False, Other # rest)"
| "evict now ti (Time value # rest) =
     (if Sub now value \<le> ti then (True, Time value # rest) else evict now ti rest)"

text \<open>
  \<open>Check\<close>, with the clock reading \<open>now\<close> as an argument. The list is written back to
  the store on every path; the map is written on admission only (line 68).
\<close>

definition Check :: "state \<Rightarrow> instant \<Rightarrow> key \<Rightarrow> (bool \<times> error option) \<times> state" where
  "Check s now userID =
     (case s of (h, fc) \<Rightarrow>
        (case (case requests fc userID of None \<Rightarrow> list_New h | Some p \<Rightarrow> (h, p)) of
           (h0, requestTimes) \<Rightarrow>
             (case evict now (timeInterval fc) (h0 ! requestTimes) of
                (ok, rest) \<Rightarrow>
                  if \<not> ok then ((False, Some NotATime), (h0[requestTimes := rest], fc))
                  else if int (length rest) \<ge> maxRequests fc
                  then ((False, Some LimitExceeded), (h0[requestTimes := rest], fc))
                  else ((True, None),
                        (h0[requestTimes := rest @ [Time now]],
                         fc\<lparr>requests := (requests fc)(userID \<mapsto> requestTimes)\<rparr>)))))"

text \<open>
  The loop of \<open>main\<close>: one \<open>Check\<close> after the other, each with the reading of the clock
  and the key it is called with. It returns the results in order and the last state.
\<close>

fun run :: "state \<Rightarrow> (instant \<times> key) list \<Rightarrow> (bool \<times> error option) list \<times> state" where
  "run s [] = ([], s)"
| "run s ((now, userID) # calls) =
     (case Check s now userID of (r, s') \<Rightarrow>
        (case run s' calls of (rs, s'') \<Rightarrow> (r # rs, s'')))"

subsection \<open>Views of a state\<close>

text \<open>The log of a key: the content of the list the map holds for it, empty when it holds none.\<close>

definition log :: "state \<Rightarrow> key \<Rightarrow> any list" where
  "log s k = (case requests (snd s) k of None \<Rightarrow> [] | Some p \<Rightarrow> fst s ! p)"

fun is_Time :: "any \<Rightarrow> bool" where
  "is_Time (Time t) = True"
| "is_Time Other = False"

fun instants :: "any list \<Rightarrow> instant list" where
  "instants [] = []"
| "instants (Time t # xs) = t # instants xs"
| "instants (Other # xs) = instants xs"

text \<open>The log a \<open>Check\<close> of the key at \<open>now\<close> has after its eviction loop.\<close>

definition evicted :: "state \<Rightarrow> instant \<Rightarrow> key \<Rightarrow> any list" where
  "evicted s now k = snd (evict now (timeInterval (snd s)) (log s k))"

text \<open>Whether an entry is within the window at \<open>now\<close>, the boundary included.\<close>

fun within :: "instant \<Rightarrow> duration \<Rightarrow> any \<Rightarrow> bool" where
  "within now ti (Time t) = (Sub now t \<le> ti)"
| "within now ti Other = True"

text \<open>
  The eviction in the words of the specification, on a log of timestamps: every entry
  \<open>t\<close> with \<open>now - t > window\<close> is removed, wherever it stands in the log.
\<close>

definition remove_stale :: "instant \<Rightarrow> duration \<Rightarrow> instant list \<Rightarrow> instant list" where
  "remove_stale now window ts = filter (\<lambda>t. \<not> Sub now t > window) ts"

text \<open>
  The admitted events of a key in a sequence of calls with their results: the instants of
  the calls for that key that returned \<open>true\<close>, in the order of the calls.
\<close>

definition admissions ::
  "key \<Rightarrow> (instant \<times> key) list \<Rightarrow> (bool \<times> error option) list \<Rightarrow> instant list" where
  "admissions k calls rs =
     map (\<lambda>c. fst (fst c)) (filter (\<lambda>c. snd (fst c) = k \<and> fst (snd c)) (zip calls rs))"

subsection \<open>Invariants of a state\<close>

text \<open>Every pointer in the map points to an allocated list: Go has no dangling pointer.\<close>

definition allocated :: "state \<Rightarrow> bool" where
  "allocated s \<longleftrightarrow> (\<forall>k p. requests (snd s) k = Some p \<longrightarrow> p < length (fst s))"

text \<open>No two keys hold the same list.\<close>

definition unshared :: "state \<Rightarrow> bool" where
  "unshared s \<longleftrightarrow>
     (\<forall>k k' p. requests (snd s) k = Some p \<longrightarrow> requests (snd s) k' = Some p \<longrightarrow> k = k')"

text \<open>Every entry of every log is a \<open>time.Time\<close>.\<close>

definition timestamps_only :: "state \<Rightarrow> bool" where
  "timestamps_only s \<longleftrightarrow> (\<forall>k. \<forall>v \<in> set (log s k). is_Time v)"

text \<open>
  A state of the limiter as the data model has it: a map from keys to logs of timestamps,
  each key with a log of its own. \<open>wellformed_init\<close> and \<open>wellformed_run\<close> below show
  that every state \<open>Check\<close> calls can reach from \<open>NewFloodControl\<close> is one.
\<close>

definition wellformed :: "state \<Rightarrow> bool" where
  "wellformed s \<longleftrightarrow> allocated s \<and> unshared s \<and> timestamps_only s"

text \<open>Every log is in chronological order, front to back.\<close>

definition chronological :: "state \<Rightarrow> bool" where
  "chronological s \<longleftrightarrow> (\<forall>k. sorted (instants (log s k)))"

text \<open>No log holds an instant after \<open>now\<close>.\<close>

definition not_after :: "instant \<Rightarrow> state \<Rightarrow> bool" where
  "not_after now s \<longleftrightarrow> (\<forall>k. \<forall>t \<in> set (instants (log s k)). t \<le> now)"

text \<open>No log is longer than the limit.\<close>

definition bounded :: "state \<Rightarrow> bool" where
  "bounded s \<longleftrightarrow> (\<forall>k. int (length (log s k)) \<le> maxRequests (snd s))"

subsection \<open>Example states\<close>

text \<open>
  Key 1 holds three entries under a limit of three and a window of ten: at instant 12 the
  oldest entry is stale and the call is admitted.
\<close>

definition ex_three :: state where
  "ex_three = ([[Time 0, Time 5, Time 6]],
               \<lparr>requests = [1 \<mapsto> 0], timeInterval = 10, maxRequests = 3\<rparr>)"

text \<open>
  Key 1 holds three entries under a limit of two and a window of ten: at instant 12 the
  first entry is 12 old and the second exactly 10.
\<close>

definition ex_boundary :: state where
  "ex_boundary = ([[Time 0, Time 2, Time 12]],
                  \<lparr>requests = [1 \<mapsto> 0], timeInterval = 10, maxRequests = 2\<rparr>)"

text \<open>Key 1 is bound to a list that holds nothing.\<close>

definition ex_empty_log :: state where
  "ex_empty_log = ([[]], \<lparr>requests = [1 \<mapsto> 0], timeInterval = 10, maxRequests = 5\<rparr>)"


text \<open>
  Key 1 holds three entries under a limit of two: at instant 12 the first is stale, and
  the two that stay fill the log. \<open>ex_full\<close> is the state with these two.
\<close>

definition ex_over :: state where
  "ex_over = ([[Time 0, Time 5, Time 6]],
              \<lparr>requests = [1 \<mapsto> 0], timeInterval = 10, maxRequests = 2\<rparr>)"

definition ex_full :: state where
  "ex_full = ([[Time 5, Time 6]],
              \<lparr>requests = [1 \<mapsto> 0], timeInterval = 10, maxRequests = 2\<rparr>)"

section \<open>Properties\<close>

subsection \<open>The clock and the eviction loop\<close>

lemma Sub_antimono: "u \<le> v \<Longrightarrow> Sub t v \<le> Sub t u"
  by (simp add: Sub_def maxDuration_def minDuration_def)

lemma Sub_mono: "t \<le> t' \<Longrightarrow> Sub t u \<le> Sub t' u"
  by (simp add: Sub_def maxDuration_def minDuration_def)

lemma evict_length: "length (snd (evict now ti xs)) \<le> length xs"
  by (induction now ti xs rule: evict.induct) auto

lemma evict_set: "set (snd (evict now ti xs)) \<subseteq> set xs"
  by (induction now ti xs rule: evict.induct) auto

lemma evict_ok: "\<forall>v \<in> set xs. is_Time v \<Longrightarrow> fst (evict now ti xs)"
  by (induction now ti xs rule: evict.induct) auto

lemma evict_Time:
  "evict now ti (map Time ts) = (True, map Time (dropWhile (\<lambda>t. ti < Sub now t) ts))"
  by (induction ts) auto

lemma sorted_dropWhile_filter:
  "sorted ts \<Longrightarrow> dropWhile (\<lambda>t. ti < Sub now t) ts = filter (\<lambda>t. Sub now t \<le> ti) ts"
proof (induction ts)
  case Nil
  then show ?case by simp
next
  case (Cons t ts)
  show ?case
  proof (cases "ti < Sub now t")
    case True
    with Cons show ?thesis by simp
  next
    case False
    have "\<forall>u \<in> set ts. Sub now u \<le> ti"
    proof
      fix u assume "u \<in> set ts"
      with Cons.prems have "t \<le> u" by simp
      then have "Sub now u \<le> Sub now t" by (rule Sub_antimono)
      with False show "Sub now u \<le> ti" by simp
    qed
    then have "filter (\<lambda>t. Sub now t \<le> ti) ts = ts" by simp
    with False show ?thesis by simp
  qed
qed

text \<open>A list of values that are all times is the image of a list of instants.\<close>

lemma all_Time_map: "\<forall>v \<in> set xs. is_Time v \<Longrightarrow> xs = map Time (instants xs)"
proof (induction xs)
  case Nil
  then show ?case by simp
next
  case (Cons v xs)
  then show ?case by (cases v) auto
qed

lemma instants_map_Time: "instants (map Time ts) = ts"
  by (induction ts) auto

lemma instants_append: "instants (xs @ ys) = instants xs @ instants ys"
  by (induction xs rule: instants.induct) auto

subsection \<open>One call of \<open>Check\<close>\<close>

lemma Check_absent:
  assumes "requests fc k = None"
  shows "Check (h, fc) now k =
    (if maxRequests fc \<le> 0 then ((False, Some LimitExceeded), (h @ [[]], fc))
     else ((True, None), (h @ [[Time now]], fc\<lparr>requests := (requests fc)(k \<mapsto> length h)\<rparr>)))"
  using assms by (simp add: Check_def list_New_def)

lemma Check_present:
  assumes "requests fc k = Some p"
  shows "Check (h, fc) now k =
    (case evict now (timeInterval fc) (h ! p) of
       (ok, rest) \<Rightarrow>
         if \<not> ok then ((False, Some NotATime), (h[p := rest], fc))
         else if maxRequests fc \<le> int (length rest)
         then ((False, Some LimitExceeded), (h[p := rest], fc))
         else ((True, None), (h[p := rest @ [Time now]], fc)))"
proof -
  have "(requests fc)(k \<mapsto> p) = requests fc"
    using assms by (rule map_upd_triv)
  then show ?thesis
    using assms by (simp add: Check_def split: prod.splits)
qed

text \<open>The result and the new log of the key depend on the old log of the key only.\<close>

lemma Check_result:
  assumes "allocated s"
  shows "fst (Check s now k) =
    (case evict now (timeInterval (snd s)) (log s k) of
       (ok, rest) \<Rightarrow>
         if \<not> ok then (False, Some NotATime)
         else if maxRequests (snd s) \<le> int (length rest) then (False, Some LimitExceeded)
         else (True, None))"
  using assms
  by (cases s)
    (auto simp: Check_def log_def list_New_def allocated_def split: option.splits prod.splits)

lemma Check_log_same:
  assumes "allocated s"
  shows "log (snd (Check s now k)) k =
    (case evict now (timeInterval (snd s)) (log s k) of
       (ok, rest) \<Rightarrow>
         if ok \<and> int (length rest) < maxRequests (snd s) then rest @ [Time now] else rest)"
  using assms
  by (cases s)
    (auto simp: Check_def log_def list_New_def allocated_def split: option.splits prod.splits)

text \<open>The frame: the log of another key stays as it is.\<close>

lemma Check_log_other:
  assumes "allocated s" and "unshared s" and "k' \<noteq> k"
  shows "log (snd (Check s now k)) k' = log s k'"
proof (cases s)
  case (Pair h fc)
  show ?thesis
  proof (cases "requests fc k")
    case None
    have "p < length h" if "requests fc k' = Some p" for p
      using that assms(1) Pair by (auto simp: allocated_def)
    then show ?thesis
      using None assms(3) Pair
      by (auto simp: Check_absent log_def nth_append split: option.splits)
  next
    case (Some p)
    have "p' \<noteq> p" if "requests fc k' = Some p'" for p'
      using that Some assms(2,3) Pair by (auto simp: unshared_def)
    then show ?thesis
      using Some Pair
      by (auto simp: Check_present log_def split: option.splits prod.splits)
  qed
qed

lemma Check_config:
  "timeInterval (snd (snd (Check s now k))) = timeInterval (snd s)"
  "maxRequests (snd (snd (Check s now k))) = maxRequests (snd s)"
  by (cases s; auto simp: Check_def split: option.splits prod.splits)+

lemma Check_allocated: "allocated s \<Longrightarrow> allocated (snd (Check s now k))"
  by (cases s)
    (auto simp: Check_def list_New_def allocated_def less_Suc_eq
          split: option.splits prod.splits)

lemma Check_unshared: "allocated s \<Longrightarrow> unshared s \<Longrightarrow> unshared (snd (Check s now k))"
  by (cases s)
    (auto simp: Check_def list_New_def allocated_def unshared_def
          split: option.splits prod.splits if_splits)

lemma Check_timestamps_only:
  assumes "allocated s" and "unshared s" and "timestamps_only s"
  shows "timestamps_only (snd (Check s now k))"
  unfolding timestamps_only_def
proof (intro allI ballI)
  fix k' v
  assume v: "v \<in> set (log (snd (Check s now k)) k')"
  have old: "\<forall>v \<in> set (log s k). is_Time v"
    using assms(3) by (simp add: timestamps_only_def)
  show "is_Time v"
  proof (cases "k' = k")
    case True
    obtain ok rest where e: "evict now (timeInterval (snd s)) (log s k) = (ok, rest)"
      by (cases "evict now (timeInterval (snd s)) (log s k)")
    have "set rest \<subseteq> set (log s k)"
      using evict_set [of now "timeInterval (snd s)" "log s k"] e by simp
    with old have "\<forall>v \<in> set rest. is_Time v" by auto
    with v True e show ?thesis
      by (auto simp: Check_log_same [OF assms(1)] split: if_splits)
  next
    case False
    with v assms show ?thesis
      by (simp add: Check_log_other timestamps_only_def)
  qed
qed

lemma wellformed_Check: "wellformed s \<Longrightarrow> wellformed (snd (Check s now k))"
  by (simp add: wellformed_def Check_allocated Check_unshared Check_timestamps_only)

lemma wellformed_init: "wellformed (h, NewFloodControl ti mr)"
  by (simp add: wellformed_def allocated_def unshared_def timestamps_only_def log_def
      NewFloodControl_def)

subsection \<open>Sequences of calls\<close>

lemma run_Cons:
  "run s ((now, k) # calls) =
     (fst (Check s now k) # fst (run (snd (Check s now k)) calls),
      snd (run (snd (Check s now k)) calls))"
  by (simp add: case_prod_beta)

lemma run_snoc:
  "run s (calls @ [(now, k)]) =
     (fst (run s calls) @ [fst (Check (snd (run s calls)) now k)],
      snd (Check (snd (run s calls)) now k))"
proof (induction calls arbitrary: s)
  case Nil
  then show ?case by (simp add: case_prod_beta)
next
  case (Cons c calls)
  obtain t u where c: "c = (t, u)" by (cases c)
  show ?case
    using Cons.IH [of "snd (Check s t u)"] by (simp add: c case_prod_beta)
qed

lemma wellformed_run: "wellformed s \<Longrightarrow> wellformed (snd (run s calls))"
proof (induction calls arbitrary: s)
  case Nil
  then show ?case by simp
next
  case (Cons c calls)
  obtain t u where c: "c = (t, u)" by (cases c)
  have "wellformed (snd (Check s t u))"
    using Cons.prems by (rule wellformed_Check)
  then have "wellformed (snd (run (snd (Check s t u)) calls))"
    by (rule Cons.IH)
  then show ?case
    by (simp add: c case_prod_beta)
qed

lemma run_config:
  "timeInterval (snd (snd (run s calls))) = timeInterval (snd s) \<and>
   maxRequests (snd (snd (run s calls))) = maxRequests (snd s)"
proof (induction calls arbitrary: s)
  case Nil
  then show ?case by simp
next
  case (Cons c calls)
  obtain t u where c: "c = (t, u)" by (cases c)
  show ?case
    using Cons.IH [of "snd (Check s t u)"]
    by (simp add: c Check_config case_prod_beta)
qed

lemma evicted_ok:
  assumes "wellformed s"
  shows "evict now (timeInterval (snd s)) (log s k) = (True, evicted s now k)"
proof -
  have "\<forall>v \<in> set (log s k). is_Time v"
    using assms by (simp add: wellformed_def timestamps_only_def)
  then have "fst (evict now (timeInterval (snd s)) (log s k))"
    by (rule evict_ok)
  then show ?thesis
    by (simp add: evicted_def prod_eq_iff)
qed

section \<open>The claims\<close>

text \<open>
  C1. For every key and every state of the limiter, a \<open>Check\<close> call returns
  \<open>admitted = false\<close> exactly when the key's log, after the eviction of the stale
  entries, has length at least the limit; otherwise it appends the current instant
  \<open>now\<close> to the back of that log, stores the log in the map under the key and returns
  \<open>admitted = true\<close> with no error.
\<close>

theorem Check_admits_below_limit:
  assumes "wellformed s"
  shows "(fst (fst (Check s now k)) = False
           \<longleftrightarrow> maxRequests (snd s) \<le> int (length (evicted s now k)))
       \<and> (fst (fst (Check s now k)) = True \<longrightarrow>
            fst (Check s now k) = (True, None)
          \<and> log (snd (Check s now k)) k = evicted s now k @ [Time now]
          \<and> requests (snd (snd (Check s now k))) k \<noteq> None)"
proof -
  have a: "allocated s" using assms by (simp add: wellformed_def)
  note e = evicted_ok [OF assms, of now k]
  have stored: "requests (snd (snd (Check s now k))) k \<noteq> None"
    if "fst (fst (Check s now k))"
    using that by (cases s) (auto simp: Check_def split: option.splits prod.splits if_splits)
  show ?thesis
    using stored by (auto simp: Check_result [OF a] Check_log_same [OF a] e)
qed

theorem Check_admits_below_limit_witness:
  "wellformed ex_three
   \<and> evicted ex_three 12 1 = [Time 5, Time 6]
   \<and> \<not> maxRequests (snd ex_three) \<le> int (length (evicted ex_three 12 1))
   \<and> fst (Check ex_three 12 1) = (True, None)
   \<and> log (snd (Check ex_three 12 1)) 1 = [Time 5, Time 6, Time 12]
   \<and> requests (snd (snd (Check ex_three 12 1))) 1 \<noteq> None"
proof -
  have h: "wellformed ex_three"
    by (simp add: ex_three_def wellformed_def allocated_def unshared_def timestamps_only_def
        log_def)
  have e: "evicted ex_three 12 1 = [Time 5, Time 6]"
    by (simp add: ex_three_def evicted_def log_def Sub_def maxDuration_def minDuration_def)
  have m: "maxRequests (snd ex_three) = 3"
    by (simp add: ex_three_def)
  show ?thesis
    using h Check_admits_below_limit [OF h, of 12 1] by (simp add: e m prod_eq_iff)
qed

lemma evict_sorted:
  assumes "sorted ts"
  shows "evict now ti (map Time ts) = (True, map Time (filter (\<lambda>t. Sub now t \<le> ti) ts))"
  using assms by (simp add: evict_Time sorted_dropWhile_filter)

lemma filter_within_map: "filter (within now ti) (map Time ts) = map Time (filter (\<lambda>t. Sub now t \<le> ti) ts)"
  by (induction ts) auto

lemma evicted_sorted:
  assumes "wellformed s" and "sorted (instants (log s k))"
  shows "evicted s now k = filter (within now (timeInterval (snd s))) (log s k)"
proof -
  have "\<forall>v \<in> set (log s k). is_Time v"
    using assms(1) by (simp add: wellformed_def timestamps_only_def)
  then have m: "log s k = map Time (instants (log s k))"
    by (rule all_Time_map)
  have "evicted s now k = snd (evict now (timeInterval (snd s)) (map Time (instants (log s k))))"
    using m by (simp add: evicted_def)
  also have "\<dots> = map Time (filter (\<lambda>t. Sub now t \<le> timeInterval (snd s)) (instants (log s k)))"
    using assms(2) by (simp add: evict_sorted)
  also have "\<dots> = filter (within now (timeInterval (snd s))) (map Time (instants (log s k)))"
    by (simp add: filter_within_map)
  finally show ?thesis using m by simp
qed

lemma stored_log_sorted:
  assumes "wellformed s" and "sorted (instants (log s k))"
  shows "log (snd (Check s now k)) k
       = filter (within now (timeInterval (snd s))) (log s k)
         @ (if fst (fst (Check s now k)) then [Time now] else [])"
proof -
  have a: "allocated s" using assms(1) by (simp add: wellformed_def)
  have "log (snd (Check s now k)) k
      = evicted s now k @ (if fst (fst (Check s now k)) then [Time now] else [])"
    by (simp add: Check_log_same [OF a] Check_result [OF a] evicted_ok [OF assms(1)])
  then show ?thesis
    by (simp add: evicted_sorted [OF assms])
qed

text \<open>
  C2. The boundary of the window is inclusive: for every entry \<open>t\<close> of a key's log, a
  \<open>Check\<close> at instant \<open>now\<close> evicts \<open>t\<close> exactly when \<open>now - t > window\<close> and keeps it
  when \<open>now - t \<le> window\<close>, the case \<open>now - t = window\<close> included; a kept entry counts
  toward the capacity. So the log stored after the call is the entries of the old log
  within the window, followed by \<open>now\<close> when the call is admitted. The log is one of
  timestamps in chronological order, as the data model has it and as \<open>chronological_run\<close>
  shows of the reachable states; \<open>now - t\<close> is \<open>now.Sub(t)\<close>.
\<close>

theorem eviction_boundary_inclusive:
  assumes "wellformed s" and "sorted (instants (log s k))"
  shows "evicted s now k = filter (within now (timeInterval (snd s))) (log s k)
       \<and> (\<forall>t. Time t \<in> set (log s k) \<longrightarrow>
            (Time t \<in> set (evicted s now k) \<longleftrightarrow> Sub now t \<le> timeInterval (snd s)))
       \<and> (fst (fst (Check s now k)) \<longleftrightarrow>
            int (length (filter (within now (timeInterval (snd s))) (log s k)))
              < maxRequests (snd s))
       \<and> log (snd (Check s now k)) k
           = filter (within now (timeInterval (snd s))) (log s k)
             @ (if fst (fst (Check s now k)) then [Time now] else [])"
proof -
  note e = evicted_sorted [OF assms, of now]
  have a: "allocated s" using assms(1) by (simp add: wellformed_def)
  have "fst (fst (Check s now k)) \<longleftrightarrow> int (length (evicted s now k)) < maxRequests (snd s)"
    by (simp add: Check_result [OF a] evicted_ok [OF assms(1)])
  then have "evicted s now k = filter (within now (timeInterval (snd s))) (log s k)
       \<and> (\<forall>t. Time t \<in> set (log s k) \<longrightarrow>
            (Time t \<in> set (evicted s now k) \<longleftrightarrow> Sub now t \<le> timeInterval (snd s)))
       \<and> (fst (fst (Check s now k)) \<longleftrightarrow>
            int (length (filter (within now (timeInterval (snd s))) (log s k)))
              < maxRequests (snd s))"
    using e by auto
  then show ?thesis
    using stored_log_sorted [OF assms, of now] by blast
qed

theorem eviction_boundary_inclusive_witness:
  "wellformed ex_boundary
   \<and> sorted (instants (log ex_boundary 1))
   \<and> log ex_boundary 1 = [Time 0, Time 2, Time 12]
   \<and> Sub 12 2 = timeInterval (snd ex_boundary)
   \<and> Time 2 \<in> set (evicted ex_boundary 12 1)
   \<and> Sub 12 0 > timeInterval (snd ex_boundary)
   \<and> Time 0 \<notin> set (evicted ex_boundary 12 1)
   \<and> evicted ex_boundary 12 1 = [Time 2, Time 12]
   \<and> \<not> fst (fst (Check ex_boundary 12 1))
   \<and> log (snd (Check ex_boundary 12 1)) 1 = [Time 2, Time 12]
   \<and> fst (fst (Check ex_three 12 1))
   \<and> log (snd (Check ex_three 12 1)) 1 = [Time 5, Time 6, Time 12]"
proof -
  have h: "wellformed ex_boundary" "wellformed ex_three"
    by (simp_all add: ex_boundary_def ex_three_def wellformed_def allocated_def unshared_def
        timestamps_only_def log_def)
  have l: "log ex_boundary 1 = [Time 0, Time 2, Time 12]"
      "log ex_three 1 = [Time 0, Time 5, Time 6]"
    by (simp_all add: ex_boundary_def ex_three_def log_def)
  have c: "sorted (instants (log ex_boundary 1))" "sorted (instants (log ex_three 1))"
    by (simp_all add: l)
  have t: "timeInterval (snd ex_boundary) = 10" "maxRequests (snd ex_boundary) = 2"
      "timeInterval (snd ex_three) = 10" "maxRequests (snd ex_three) = 3"
    by (simp_all add: ex_boundary_def ex_three_def)
  have d: "Sub 12 2 = 10" "Sub 12 0 = 12" "Sub 12 12 = 0" "Sub 12 5 = 7" "Sub 12 6 = 6"
    by (simp_all add: Sub_def maxDuration_def minDuration_def)
  show ?thesis
    using h(1) c(1) eviction_boundary_inclusive [OF h(1) c(1), of 12]
      eviction_boundary_inclusive [OF h(2) c(2), of 12]
    by (simp add: l t d)
qed

text \<open>
  C7. The eviction that removes entries from the front and stops at the first entry with
  \<open>now - t \<le> window\<close> leaves exactly the log that the removal of every stale entry
  from the whole log leaves, for every log in chronological (non-decreasing) order.
\<close>

theorem front_stop_eviction_refines:
  assumes "sorted ts"
  shows "evict now window (map Time ts) = (True, map Time (remove_stale now window ts))"
  using assms by (simp add: evict_sorted remove_stale_def not_less)

theorem front_stop_eviction_refines_witness:
  "sorted [0, 5, 6 :: instant]
   \<and> evict 12 10 (map Time [0, 5, 6]) = (True, map Time (remove_stale 12 10 [0, 5, 6]))
   \<and> remove_stale 12 10 [0, 5, 6] = [5, 6]"
proof -
  have h: "sorted [0, 5, 6 :: instant]" by simp
  have r: "remove_stale 12 10 [0, 5, 6] = [5, 6]"
    by (simp add: remove_stale_def Sub_def maxDuration_def minDuration_def)
  show ?thesis
    using h r front_stop_eviction_refines [OF h, of 12 10] by simp
qed

text \<open>Without the order the two differ: the loop stops at the first entry it keeps.\<close>

lemma front_stop_needs_order:
  "snd (evict 12 10 (map Time [5, 0])) = map Time [5, 0] \<and> remove_stale 12 10 [5, 0] = [5]"
  by (simp add: remove_stale_def Sub_def maxDuration_def minDuration_def)

text \<open>
  C10. For a key with no entry in the map, a \<open>Check\<close> under a limit of at least one
  returns \<open>admitted = true\<close> with no error and leaves the key bound to a log that holds
  exactly one timestamp, the call's \<open>now\<close>; a key bound to an empty log is treated in
  the same way.
\<close>

theorem first_Check_admitted:
  assumes "requests (snd s) k = None" and "1 \<le> maxRequests (snd s)"
  shows "fst (Check s now k) = (True, None)
       \<and> log (snd (Check s now k)) k = [Time now]
       \<and> requests (snd (snd (Check s now k))) k \<noteq> None
       \<and> (requests (snd s') k = Some p \<and> p < length (fst s') \<and> fst s' ! p = []
            \<and> maxRequests (snd s') = maxRequests (snd s)
          \<longrightarrow> fst (Check s' now k) = fst (Check s now k)
            \<and> log (snd (Check s' now k)) k = log (snd (Check s now k)) k)"
proof -
  obtain h fc where s: "s = (h, fc)" by (cases s)
  obtain h' fc' where s': "s' = (h', fc')" by (cases s')
  have absent: "fst (Check s now k) = (True, None)"
      "log (snd (Check s now k)) k = [Time now]"
      "requests (snd (snd (Check s now k))) k \<noteq> None"
    using assms by (simp_all add: s Check_absent log_def)
  have "fst (Check s' now k) = (True, None) \<and> log (snd (Check s' now k)) k = [Time now]"
    if "requests (snd s') k = Some p" "p < length (fst s')" "fst s' ! p = []"
      "maxRequests (snd s') = maxRequests (snd s)"
    using that assms(2) by (simp add: s' Check_present log_def)
  with absent show ?thesis by simp
qed

theorem first_Check_admitted_witness:
  "requests (snd ([], NewFloodControl 10 5)) 1 = None
   \<and> 1 \<le> maxRequests (snd ([], NewFloodControl 10 5))
   \<and> fst (Check ([], NewFloodControl 10 5) 7 1) = (True, None)
   \<and> log (snd (Check ([], NewFloodControl 10 5) 7 1)) 1 = [Time 7]
   \<and> requests (snd (snd (Check ([], NewFloodControl 10 5) 7 1))) 1 \<noteq> None
   \<and> requests (snd ex_empty_log) 1 = Some 0 \<and> fst ex_empty_log ! 0 = []
   \<and> maxRequests (snd ex_empty_log) = maxRequests (snd ([], NewFloodControl 10 5))
   \<and> fst (Check ex_empty_log 7 1) = (True, None)
   \<and> log (snd (Check ex_empty_log 7 1)) 1 = [Time 7]"
proof -
  have h: "requests (snd ([], NewFloodControl 10 5)) 1 = None"
      "1 \<le> maxRequests (snd ([], NewFloodControl 10 5))"
    by (simp_all add: NewFloodControl_def)
  have e: "requests (snd ex_empty_log) 1 = Some 0" "0 < length (fst ex_empty_log)"
      "fst ex_empty_log ! 0 = []"
      "maxRequests (snd ex_empty_log) = maxRequests (snd ([], NewFloodControl 10 5))"
    by (simp_all add: ex_empty_log_def NewFloodControl_def)
  show ?thesis
    using h e first_Check_admitted [OF h, where now = 7 and s' = ex_empty_log and p = 0]
    by simp
qed




lemma evict_all_within:
  assumes "\<forall>v \<in> set xs. is_Time v \<and> within now ti v"
  shows "evict now ti xs = (True, xs)"
proof (cases xs)
  case Nil
  then show ?thesis by simp
next
  case (Cons v rest)
  with assms show ?thesis by (cases v) auto
qed

lemma rejected_log:
  assumes "wellformed s" and "fst (fst (Check s now k)) = False"
  shows "log (snd (Check s now k)) k = evicted s now k"
proof -
  have a: "allocated s" using assms(1) by (simp add: wellformed_def)
  note e = evicted_ok [OF assms(1), of now k]
  have "maxRequests (snd s) \<le> int (length (evicted s now k))"
    using assms(2) by (simp add: Check_result [OF a] e split: if_splits)
  then show ?thesis
    by (simp add: Check_log_same [OF a] e)
qed

lemma repeated_rejection:
  assumes "wellformed s"
    and "maxRequests (snd s) \<le> int (length (log s k))"
    and "\<forall>n \<in> set nows. \<forall>v \<in> set (log s k). within n (timeInterval (snd s)) v"
  shows "fst (run s (map (\<lambda>n. (n, k)) nows)) = replicate (length nows) (False, Some LimitExceeded)
       \<and> log (snd (run s (map (\<lambda>n. (n, k)) nows))) k = log s k"
  using assms
proof (induction nows arbitrary: s)
  case Nil
  then show ?case by simp
next
  case (Cons n nows)
  let ?s' = "snd (Check s n k)"
  have a: "allocated s" using Cons.prems(1) by (simp add: wellformed_def)
  have "\<forall>v \<in> set (log s k). is_Time v"
    using Cons.prems(1) by (simp add: wellformed_def timestamps_only_def)
  with Cons.prems(3) have "\<forall>v \<in> set (log s k). is_Time v \<and> within n (timeInterval (snd s)) v"
    by simp
  then have e: "evict n (timeInterval (snd s)) (log s k) = (True, log s k)"
    by (rule evict_all_within)
  have r: "fst (Check s n k) = (False, Some LimitExceeded)"
    using Cons.prems(2) by (simp add: Check_result [OF a] e)
  have l: "log ?s' k = log s k"
    using Cons.prems(2) by (simp add: Check_log_same [OF a] e)
  have w: "wellformed ?s'"
    using Cons.prems(1) by (rule wellformed_Check)
  have "fst (run ?s' (map (\<lambda>n. (n, k)) nows)) = replicate (length nows) (False, Some LimitExceeded)
       \<and> log (snd (run ?s' (map (\<lambda>n. (n, k)) nows))) k = log ?s' k"
    using w Cons.prems(2,3) by (intro Cons.IH) (simp_all add: l Check_config)
  then show ?case
    using r l by (simp add: case_prod_beta)
qed

text \<open>
  C5. A rejected call does not append the current instant to the key's log, and the
  evictions it made stay in the stored log: the stored log is the log after the
  eviction. So repeated calls for a key whose log is full, with all entries within the
  window, are all rejected and leave the log as it is.
\<close>

theorem rejection_keeps_evictions:
  assumes "wellformed s"
  shows "(fst (fst (Check s now k)) = False \<longrightarrow>
            log (snd (Check s now k)) k = evicted s now k)
       \<and> (maxRequests (snd s) \<le> int (length (log s k))
          \<and> (\<forall>n \<in> set nows. \<forall>v \<in> set (log s k). within n (timeInterval (snd s)) v) \<longrightarrow>
            fst (run s (map (\<lambda>n. (n, k)) nows))
              = replicate (length nows) (False, Some LimitExceeded)
          \<and> log (snd (run s (map (\<lambda>n. (n, k)) nows))) k = log s k)"
  using rejected_log [OF assms] repeated_rejection [OF assms] by blast

theorem rejection_keeps_evictions_witness:
  "wellformed ex_over
   \<and> log ex_over 1 = [Time 0, Time 5, Time 6]
   \<and> fst (Check ex_over 12 1) = (False, Some LimitExceeded)
   \<and> evicted ex_over 12 1 = [Time 5, Time 6]
   \<and> log (snd (Check ex_over 12 1)) 1 = [Time 5, Time 6]
   \<and> wellformed ex_full
   \<and> log ex_full 1 = [Time 5, Time 6]
   \<and> maxRequests (snd ex_full) \<le> int (length (log ex_full 1))
   \<and> fst (run ex_full (map (\<lambda>n. (n, 1)) [12, 13, 14]))
       = replicate (length [12, 13, 14 :: instant]) (False, Some LimitExceeded)
   \<and> log (snd (run ex_full (map (\<lambda>n. (n, 1)) [12, 13, 14]))) 1 = [Time 5, Time 6]"
proof -
  have h: "wellformed ex_over"
    by (simp add: ex_over_def wellformed_def allocated_def unshared_def timestamps_only_def
        log_def)
  have h': "wellformed ex_full"
    by (simp add: ex_full_def wellformed_def allocated_def unshared_def timestamps_only_def
        log_def)
  have d: "Sub 12 0 = 12" "Sub 12 5 = 7" "Sub 12 6 = 6" "Sub 13 5 = 8" "Sub 13 6 = 7"
      "Sub 14 5 = 9" "Sub 14 6 = 8"
    by (simp_all add: Sub_def maxDuration_def minDuration_def)
  have l: "log ex_over 1 = [Time 0, Time 5, Time 6]" "log ex_full 1 = [Time 5, Time 6]"
    by (simp_all add: ex_over_def ex_full_def log_def)
  have c: "timeInterval (snd ex_over) = 10" "timeInterval (snd ex_full) = 10"
      "maxRequests (snd ex_full) = 2"
    by (simp_all add: ex_over_def ex_full_def)
  have r: "fst (Check ex_over 12 1) = (False, Some LimitExceeded)"
    by (simp add: ex_over_def Check_def d)
  have e: "evicted ex_over 12 1 = [Time 5, Time 6]"
    by (simp add: evicted_def l c d)
  show ?thesis
    using h h' rejection_keeps_evictions [OF h, of 12 1 "[]"]
      rejection_keeps_evictions [OF h', of 12 1 "[12, 13, 14]"]
    by (simp add: l c d r e)
qed

lemma bounded_Check:
  assumes "wellformed s" and "bounded s"
  shows "bounded (snd (Check s now k))"
  unfolding bounded_def
proof
  fix k'
  have a: "allocated s" and u: "unshared s"
    using assms(1) by (simp_all add: wellformed_def)
  have old: "int (length (log s k')) \<le> maxRequests (snd s)" for k'
    using assms(2) by (simp add: bounded_def)
  show "int (length (log (snd (Check s now k)) k')) \<le> maxRequests (snd (snd (Check s now k)))"
  proof (cases "k' = k")
    case True
    have "length (evicted s now k) \<le> length (log s k)"
      by (simp add: evicted_def evict_length)
    with old [of k] have "int (length (evicted s now k)) \<le> maxRequests (snd s)"
      by simp
    then show ?thesis
      using True by (simp add: Check_log_same [OF a] evicted_ok [OF assms(1)] Check_config)
  next
    case False
    then show ?thesis
      using old [of k'] by (simp add: Check_log_other [OF a u] Check_config)
  qed
qed

lemma bounded_run: "wellformed s \<Longrightarrow> bounded s \<Longrightarrow> bounded (snd (run s calls))"
proof (induction calls arbitrary: s)
  case Nil
  then show ?case by simp
next
  case (Cons c calls)
  obtain t u where c: "c = (t, u)" by (cases c)
  have "bounded (snd (run (snd (Check s t u)) calls))"
    using Cons.prems by (intro Cons.IH wellformed_Check bounded_Check)
  then show ?case
    by (simp add: c case_prod_beta)
qed

lemma bounded_init: "0 \<le> mr \<Longrightarrow> bounded (h, NewFloodControl ti mr)"
  by (simp add: bounded_def log_def NewFloodControl_def)

lemma Check_only_limit_error:
  assumes "wellformed s"
  shows "fst (Check s now k) = (True, None) \<or> fst (Check s now k) = (False, Some LimitExceeded)"
proof -
  have a: "allocated s" using assms by (simp add: wellformed_def)
  show ?thesis
    by (simp add: Check_result [OF a] evicted_ok [OF assms])
qed

lemma run_only_limit_error:
  assumes "wellformed s"
  shows "set (fst (run s calls)) \<subseteq> {(True, None), (False, Some LimitExceeded)}"
  using assms
proof (induction calls arbitrary: s)
  case Nil
  then show ?case by simp
next
  case (Cons c calls)
  obtain t u where c: "c = (t, u)" by (cases c)
  have "set (fst (run (snd (Check s t u)) calls)) \<subseteq> {(True, None), (False, Some LimitExceeded)}"
    using Cons.prems by (intro Cons.IH wellformed_Check)
  then show ?case
    using Check_only_limit_error [OF Cons.prems, of t u] by (auto simp: c case_prod_beta)
qed

text \<open>
  C9. In every state that a sequence of \<open>Check\<close> calls reaches from \<open>NewFloodControl\<close>,
  every entry of every log is a timestamp; every result of these calls, and of a further
  call, is an admission or the error of the exceeded limit, so the error of line 51 is
  never returned.
\<close>

theorem only_limit_error_reachable:
  "timestamps_only (snd (run (h, NewFloodControl ti mr) calls))
   \<and> set (fst (run (h, NewFloodControl ti mr) calls))
       \<subseteq> {(True, None), (False, Some LimitExceeded)}
   \<and> snd (fst (Check (snd (run (h, NewFloodControl ti mr) calls)) now k)) \<noteq> Some NotATime"
proof -
  have w: "wellformed (snd (run (h, NewFloodControl ti mr) calls))"
    by (intro wellformed_run wellformed_init)
  then have "timestamps_only (snd (run (h, NewFloodControl ti mr) calls))"
    by (simp add: wellformed_def)
  moreover have "snd (fst (Check (snd (run (h, NewFloodControl ti mr) calls)) now k))
      \<noteq> Some NotATime"
    using Check_only_limit_error [OF w, of now k] by auto
  ultimately show ?thesis
    using run_only_limit_error [OF wellformed_init, of h ti mr calls] by simp
qed

theorem only_limit_error_reachable_witness:
  "log (snd (run ([], NewFloodControl 10 2) [(0, 1), (1, 2), (2, 1), (3, 1)])) 1
     = [Time 0, Time 2]
   \<and> log (snd (run ([], NewFloodControl 10 2) [(0, 1), (1, 2), (2, 1), (3, 1)])) 2 = [Time 1]
   \<and> timestamps_only (snd (run ([], NewFloodControl 10 2) [(0, 1), (1, 2), (2, 1), (3, 1)]))
   \<and> fst (run ([], NewFloodControl 10 2) [(0, 1), (1, 2), (2, 1), (3, 1)])
       = [(True, None), (True, None), (True, None), (False, Some LimitExceeded)]
   \<and> snd (fst (Check (snd (run ([], NewFloodControl 10 2) [(0, 1), (1, 2), (2, 1), (3, 1)]))
        4 2)) \<noteq> Some NotATime"
proof -
  have r: "fst (run ([], NewFloodControl 10 2) [(0, 1), (1, 2), (2, 1), (3, 1)])
       = [(True, None), (True, None), (True, None), (False, Some LimitExceeded)]"
      "log (snd (run ([], NewFloodControl 10 2) [(0, 1), (1, 2), (2, 1), (3, 1)])) 1
       = [Time 0, Time 2]"
      "log (snd (run ([], NewFloodControl 10 2) [(0, 1), (1, 2), (2, 1), (3, 1)])) 2
       = [Time 1]"
    by (simp_all add: NewFloodControl_def Check_def list_New_def log_def Sub_def
        maxDuration_def minDuration_def)
  show ?thesis
    using only_limit_error_reachable [of "[]" 10 2 "[(0, 1), (1, 2), (2, 1), (3, 1)]" 4 2]
    by (simp add: r del: run.simps)
qed

lemma evict_suffix: "\<exists>ys. xs = ys @ snd (evict now ti xs)"
proof (induction now ti xs rule: evict.induct)
  case (1 now ti)
  show ?case by simp
next
  case (2 now ti rest)
  show ?case by simp
next
  case (3 now ti v rest)
  show ?case
  proof (cases "Sub now v \<le> ti")
    case True
    then show ?thesis by simp
  next
    case False
    from 3 [OF False] obtain ys where "rest = ys @ snd (evict now ti rest)" by blast
    then have "Time v # rest = (Time v # ys) @ snd (evict now ti rest)" by simp
    with False show ?thesis by (metis evict.simps(3))
  qed
qed

lemma instants_evicted:
  "\<exists>ts. instants (log s k) = ts @ instants (evicted s now k)"
proof -
  obtain ys where "log s k = ys @ evicted s now k"
    using evict_suffix [of "log s k" now "timeInterval (snd s)"] by (auto simp: evicted_def)
  then have "instants (log s k) = instants ys @ instants (evicted s now k)"
    by (metis instants_append)
  then show ?thesis by blast
qed

lemma not_after_mono: "not_after t s \<Longrightarrow> t \<le> t' \<Longrightarrow> not_after t' s"
  by (fastforce simp: not_after_def)

lemma chronological_Check:
  assumes "wellformed s" and "chronological s" and "not_after now s"
  shows "chronological (snd (Check s now k)) \<and> not_after now (snd (Check s now k))"
proof -
  have a: "allocated s" and u: "unshared s"
    using assms(1) by (simp_all add: wellformed_def)
  obtain ts where ts: "instants (log s k) = ts @ instants (evicted s now k)"
    using instants_evicted by blast
  have "sorted (instants (log s k))"
    using assms(2) by (simp add: chronological_def)
  then have so: "sorted (instants (evicted s now k))"
    by (simp add: ts sorted_append)
  have "\<forall>t \<in> set (instants (log s k)). t \<le> now"
    using assms(3) by (simp add: not_after_def)
  then have le: "\<forall>t \<in> set (instants (evicted s now k)). t \<le> now"
    by (simp add: ts)
  have same: "sorted (instants (log (snd (Check s now k)) k))
      \<and> (\<forall>t \<in> set (instants (log (snd (Check s now k)) k)). t \<le> now)"
    using so le
    by (auto simp: Check_log_same [OF a] evicted_ok [OF assms(1)] instants_append sorted_append)
  have "sorted (instants (log (snd (Check s now k)) k'))
      \<and> (\<forall>t \<in> set (instants (log (snd (Check s now k)) k')). t \<le> now)" for k'
  proof (cases "k' = k")
    case True
    with same show ?thesis by simp
  next
    case False
    then show ?thesis
      using assms(2,3) by (simp add: Check_log_other [OF a u] chronological_def not_after_def)
  qed
  then show ?thesis
    by (simp add: chronological_def not_after_def)
qed

lemma chronological_run:
  assumes "wellformed s" and "chronological s"
    and "sorted (map fst calls)" and "\<forall>c \<in> set calls. not_after (fst c) s"
  shows "chronological (snd (run s calls))"
  using assms
proof (induction calls arbitrary: s)
  case Nil
  then show ?case by simp
next
  case (Cons c calls)
  obtain t u where c: "c = (t, u)" by (cases c)
  let ?s' = "snd (Check s t u)"
  have "not_after t s"
    using Cons.prems(4) by (simp add: c)
  then have step: "chronological ?s'" "not_after t ?s'"
    using chronological_Check [OF Cons.prems(1,2), of t u] by simp_all
  have "\<forall>d \<in> set calls. not_after (fst d) ?s'"
  proof
    fix d assume "d \<in> set calls"
    then have "t \<le> fst d"
      using Cons.prems(3) by (simp add: c)
    with step(2) show "not_after (fst d) ?s'" by (rule not_after_mono)
  qed
  moreover have "sorted (map fst calls)"
    using Cons.prems(3) by simp
  ultimately have "chronological (snd (run ?s' calls))"
    using step(1) Cons.prems(1) by (intro Cons.IH wellformed_Check)
  then show ?case
    by (simp add: c case_prod_beta)
qed

lemma chronological_init:
  "chronological (h, NewFloodControl ti mr)" "not_after t (h, NewFloodControl ti mr)"
  by (simp_all add: chronological_def not_after_def log_def NewFloodControl_def)

text \<open>
  C8. The chronological order is an invariant: when the clock readings of successive
  calls do not decrease, the timestamps of every key's log are in non-decreasing order,
  front to back, in every state the calls reach from \<open>NewFloodControl\<close>, and the next
  \<open>Check\<close> keeps them so.
\<close>

theorem chronological_order_invariant:
  assumes "sorted (map fst (calls @ [(now, k)]))"
  shows "chronological (snd (run (h, NewFloodControl ti mr) calls))
       \<and> chronological (snd (Check (snd (run (h, NewFloodControl ti mr) calls)) now k))"
proof -
  have reach: "chronological (snd (run (h, NewFloodControl ti mr) cs))"
    if "sorted (map fst cs)" for cs
  proof (rule chronological_run)
    show "wellformed (h, NewFloodControl ti mr)" by (rule wellformed_init)
    show "chronological (h, NewFloodControl ti mr)" by (rule chronological_init)
    show "sorted (map fst cs)" by (rule that)
    show "\<forall>c \<in> set cs. not_after (fst c) (h, NewFloodControl ti mr)"
      by (simp add: chronological_init)
  qed
  have "sorted (map fst calls)"
    using assms by (simp add: sorted_append)
  then have "chronological (snd (run (h, NewFloodControl ti mr) calls))"
    by (rule reach)
  moreover have "chronological (snd (run (h, NewFloodControl ti mr) (calls @ [(now, k)])))"
    using assms by (rule reach)
  ultimately show ?thesis
    by (simp add: run_snoc)
qed

theorem chronological_order_invariant_witness:
  "sorted (map fst ([(0, 1), (1, 2), (5, 1), (5, 2)] @ [(12 :: instant, 1 :: key)]))
   \<and> chronological (snd (run ([], NewFloodControl 10 3) [(0, 1), (1, 2), (5, 1), (5, 2)]))
   \<and> log (snd (run ([], NewFloodControl 10 3) [(0, 1), (1, 2), (5, 1), (5, 2)])) 1
       = [Time 0, Time 5]
   \<and> chronological
       (snd (Check (snd (run ([], NewFloodControl 10 3) [(0, 1), (1, 2), (5, 1), (5, 2)])) 12 1))
   \<and> log (snd (Check (snd (run ([], NewFloodControl 10 3) [(0, 1), (1, 2), (5, 1), (5, 2)]))
        12 1)) 1 = [Time 5, Time 12]"
proof -
  have h: "sorted (map fst ([(0, 1), (1, 2), (5, 1), (5, 2)] @ [(12 :: instant, 1 :: key)]))"
    by simp
  have r: "log (snd (run ([], NewFloodControl 10 3) [(0, 1), (1, 2), (5, 1), (5, 2)])) 1
       = [Time 0, Time 5]"
      "log (snd (Check (snd (run ([], NewFloodControl 10 3) [(0, 1), (1, 2), (5, 1), (5, 2)]))
        12 1)) 1 = [Time 5, Time 12]"
    by (simp_all add: NewFloodControl_def Check_def list_New_def log_def Sub_def
        maxDuration_def minDuration_def)
  show ?thesis
    using h chronological_order_invariant [OF h, of "[]" 10 3] r
    by (simp del: run.simps)
qed

lemma run_log_other:
  assumes "wellformed s" and "\<forall>c \<in> set calls. snd c \<noteq> k"
  shows "log (snd (run s calls)) k = log s k"
  using assms
proof (induction calls arbitrary: s)
  case Nil
  then show ?case by simp
next
  case (Cons c calls)
  obtain t u where c: "c = (t, u)" by (cases c)
  have a: "allocated s" and un: "unshared s"
    using Cons.prems(1) by (simp_all add: wellformed_def)
  have "k \<noteq> u"
    using Cons.prems(2) by (auto simp: c)
  then have "log (snd (Check s t u)) k = log s k"
    by (rule Check_log_other [OF a un])
  moreover have "log (snd (run (snd (Check s t u)) calls)) k = log (snd (Check s t u)) k"
    using Cons.prems by (intro Cons.IH wellformed_Check) simp_all
  ultimately show ?case
    by (simp add: c case_prod_beta)
qed

text \<open>
  C6 as stated speaks of any later \<open>Check\<close> of the key. Under a limit of two and a
  window of ten, key 1 is admitted at 0 and at 9 and rejected at 9 with the full log
  \<open>[0, 9]\<close>. The call at 11 evicts the entry 0 and is admitted. The call at 12 is later
  still, and 12 is more than the window after the oldest admission 0 of the log that was
  rejected; but the log is \<open>[9, 11]\<close> by then, and the call is rejected.
\<close>

theorem recovery_any_later_Check_counterexample:
  "(0 :: int) < 2 \<and> sorted [0, 9, 9, 11, 12 :: instant]
   \<and> fst (run ([], NewFloodControl 10 2) [(0, 1), (9, 1), (9, 1)])
       = [(True, None), (True, None), (False, Some LimitExceeded)]
   \<and> log (snd (run ([], NewFloodControl 10 2) [(0, 1), (9, 1), (9, 1)])) 1 = [Time 0, Time 9]
   \<and> Sub 12 0 > 10
   \<and> fst (run ([], NewFloodControl 10 2) [(0, 1), (9, 1), (9, 1), (11, 1), (12, 1)])
       = [(True, None), (True, None), (False, Some LimitExceeded), (True, None),
          (False, Some LimitExceeded)]"
  by (simp add: NewFloodControl_def Check_def list_New_def log_def Sub_def maxDuration_def
      minDuration_def)

text \<open>
  C6, amended. Recovery: under a limit above zero, when a \<open>Check\<close> of a key is rejected
  with a full log whose oldest entry is \<open>t0\<close>, the next \<open>Check\<close> of that key (calls for
  other keys may come in between), made at an instant more than the window after \<open>t0\<close>,
  returns \<open>admitted = true\<close> with no error. The order of the clock readings is not
  needed.
\<close>

theorem recovery_next_Check:
  assumes "0 < mr"
    and "s = snd (run (h, NewFloodControl ti mr) calls)"
    and "fst (fst (Check s now k)) = False"
    and "log (snd (Check s now k)) k = Time t0 # rest"
    and "\<forall>c \<in> set others. snd c \<noteq> k"
    and "ti < Sub now' t0"
  shows "fst (Check (snd (run (snd (Check s now k)) others)) now' k) = (True, None)"
proof -
  let ?s1 = "snd (Check s now k)"
  let ?s2 = "snd (run ?s1 others)"
  have w: "wellformed s"
    unfolding assms(2) by (intro wellformed_run wellformed_init)
  have b: "bounded s"
    unfolding assms(2) using assms(1) by (intro bounded_run wellformed_init bounded_init) simp
  have cfg: "timeInterval (snd s) = ti" "maxRequests (snd s) = mr"
    unfolding assms(2) by (simp_all add: run_config NewFloodControl_def)
  have w1: "wellformed ?s1"
    using w by (rule wellformed_Check)
  have "bounded ?s1"
    using w b by (rule bounded_Check)
  then have "int (length (log ?s1 k)) \<le> mr"
    by (simp add: bounded_def Check_config cfg)
  then have short: "int (length rest) < mr"
    by (simp add: assms(4))
  have w2: "wellformed ?s2"
    using w1 by (rule wellformed_run)
  then have a2: "allocated ?s2"
    by (simp add: wellformed_def)
  have cfg2: "timeInterval (snd ?s2) = ti" "maxRequests (snd ?s2) = mr"
    by (simp_all add: run_config Check_config cfg)
  have l2: "log ?s2 k = Time t0 # rest"
    using run_log_other [OF w1 assms(5)] by (simp add: assms(4))
  have e: "evict now' ti (log ?s2 k) = (True, evicted ?s2 now' k)"
    using evicted_ok [OF w2, of now' k] by (simp add: cfg2)
  have "evicted ?s2 now' k = snd (evict now' ti rest)"
    using assms(6) by (simp add: evicted_def cfg2 l2)
  then have "length (evicted ?s2 now' k) \<le> length rest"
    by (simp add: evict_length)
  with short have "int (length (evicted ?s2 now' k)) < mr"
    by linarith
  then show ?thesis
    by (simp add: Check_result [OF a2] cfg2 e)
qed

theorem recovery_next_Check_witness:
  "(0 :: int) < 1
   \<and> fst (Check (snd (run ([], NewFloodControl 10 1) [(0, 1)])) 5 1)
       = (False, Some LimitExceeded)
   \<and> log (snd (Check (snd (run ([], NewFloodControl 10 1) [(0, 1)])) 5 1)) 1 = Time 0 # []
   \<and> snd (6 :: instant, 2 :: key) \<noteq> 1
   \<and> 10 < Sub 11 0
   \<and> fst (Check (snd (run (snd (Check (snd (run ([], NewFloodControl 10 1) [(0, 1)])) 5 1))
        [(6, 2)])) 11 1) = (True, None)"
proof -
  have h1: "(0 :: int) < 1" by simp
  have h3: "fst (fst (Check (snd (run ([], NewFloodControl 10 1) [(0, 1)])) 5 1)) = False"
    and r: "fst (Check (snd (run ([], NewFloodControl 10 1) [(0, 1)])) 5 1)
       = (False, Some LimitExceeded)"
    and h4: "log (snd (Check (snd (run ([], NewFloodControl 10 1) [(0, 1)])) 5 1)) 1
       = Time 0 # []"
    by (simp_all add: NewFloodControl_def Check_def list_New_def log_def Sub_def
        maxDuration_def minDuration_def)
  have h5: "\<forall>c \<in> set [(6 :: instant, 2 :: key)]. snd c \<noteq> 1" by simp
  have h6: "10 < Sub 11 0"
    by (simp add: Sub_def maxDuration_def minDuration_def)
  show ?thesis
    using h1 r h4 h6 recovery_next_Check [OF h1 refl h3 h4 h5 h6] by simp
qed

lemma run_length: "length (fst (run s calls)) = length calls"
proof (induction calls arbitrary: s)
  case Nil
  then show ?case by simp
next
  case (Cons c calls)
  obtain t u where c: "c = (t, u)" by (cases c)
  show ?case
    using Cons.IH [of "snd (Check s t u)"] by (simp add: c case_prod_beta)
qed

lemma admissions_Nil: "admissions k [] rs = []"
  by (simp add: admissions_def)

lemma admissions_snoc:
  assumes "length rs = length calls"
  shows "admissions k (calls @ [(n, u)]) (rs @ [r])
       = admissions k calls rs @ (if u = k \<and> fst r then [n] else [])"
  using assms by (simp add: admissions_def)

lemma evict_stale_prefix:
  "\<exists>ys. xs = ys @ snd (evict now ti xs) \<and> (\<forall>t \<in> set (instants ys). ti < Sub now t)"
proof (induction now ti xs rule: evict.induct)
  case (1 now ti)
  show ?case by simp
next
  case (2 now ti rest)
  show ?case by simp
next
  case (3 now ti v rest)
  show ?case
  proof (cases "Sub now v \<le> ti")
    case True
    then show ?thesis by simp
  next
    case False
    from 3 [OF False] obtain ys where
      ys: "rest = ys @ snd (evict now ti rest)" "\<forall>t \<in> set (instants ys). ti < Sub now t"
      by blast
    have "Time v # rest = (Time v # ys) @ snd (evict now ti (Time v # rest))"
      using False ys(1) by simp
    moreover have "\<forall>t \<in> set (instants (Time v # ys)). ti < Sub now t"
      using False ys(2) by simp
    ultimately show ?thesis by blast
  qed
qed

text \<open>
  The admissions of a key, in the order of the calls, are the instants of its log after
  instants that are stale at every reading of the clock from the last call on.
\<close>

lemma admissions_run:
  assumes "sorted (map fst calls)"
  shows "\<exists>old. admissions k' calls (fst (run (h, NewFloodControl ti mr) calls))
           = old @ instants (log (snd (run (h, NewFloodControl ti mr) calls)) k')
         \<and> (\<forall>t \<in> set old. \<forall>m. (\<forall>c \<in> set calls. fst c \<le> m) \<longrightarrow> ti < Sub m t)"
  using assms
proof (induction calls rule: rev_induct)
  case Nil
  show ?case
    by (simp add: admissions_Nil log_def NewFloodControl_def)
next
  case (snoc c calls)
  obtain n u where c: "c = (n, u)" by (cases c)
  let ?init = "(h, NewFloodControl ti mr)"
  let ?s = "snd (run ?init calls)"
  let ?rs = "fst (run ?init calls)"
  let ?r = "fst (Check ?s n u)"
  let ?s' = "snd (Check ?s n u)"
  have so: "sorted (map fst calls)" and le: "\<forall>d \<in> set calls. fst d \<le> n"
    using snoc.prems by (auto simp: c sorted_append)
  from snoc.IH [OF so] obtain old where
    old: "admissions k' calls ?rs = old @ instants (log ?s k')"
      "\<forall>t \<in> set old. \<forall>m. (\<forall>c \<in> set calls. fst c \<le> m) \<longrightarrow> ti < Sub m t"
    by blast
  have w: "wellformed ?s"
    by (intro wellformed_run wellformed_init)
  then have a: "allocated ?s" and un: "unshared ?s"
    by (simp_all add: wellformed_def)
  have cfg: "timeInterval (snd ?s) = ti"
    by (simp add: run_config NewFloodControl_def)
  have adm: "admissions k' (calls @ [c]) (fst (run ?init (calls @ [c])))
      = admissions k' calls ?rs @ (if u = k' \<and> fst ?r then [n] else [])"
    by (simp add: c run_snoc admissions_snoc run_length)
  have st: "snd (run ?init (calls @ [c])) = ?s'"
    by (simp add: c run_snoc)
  have later: "\<forall>t \<in> set old. \<forall>m. (\<forall>d \<in> set (calls @ [c]). fst d \<le> m) \<longrightarrow> ti < Sub m t"
    using old(2) by simp
  show ?case
  proof (cases "u = k'")
    case False
    then have "log ?s' k' = log ?s k'"
      using Check_log_other [OF a un, of k' u n] by simp
    then show ?thesis
      using False old(1) later by (auto simp: adm st)
  next
    case True
    obtain ys where ys: "log ?s k' = ys @ evicted ?s n k'"
        "\<forall>t \<in> set (instants ys). ti < Sub n t"
      using evict_stale_prefix [of "log ?s k'" n ti] by (auto simp: evicted_def cfg)
    have new: "log ?s' k' = evicted ?s n k' @ (if fst ?r then [Time n] else [])"
      using True by (simp add: Check_log_same [OF a] Check_result [OF a] evicted_ok [OF w])
    have eq: "admissions k' (calls @ [c]) (fst (run ?init (calls @ [c])))
        = (old @ instants ys) @ instants (log ?s' k')"
      using True new by (simp add: adm old(1) ys(1) instants_append)
    have "\<forall>t \<in> set (old @ instants ys).
        \<forall>m. (\<forall>d \<in> set (calls @ [c]). fst d \<le> m) \<longrightarrow> ti < Sub m t"
    proof (intro ballI allI impI)
      fix t m
      assume t: "t \<in> set (old @ instants ys)" and m: "\<forall>d \<in> set (calls @ [c]). fst d \<le> m"
      show "ti < Sub m t"
      proof (cases "t \<in> set old")
        case True
        with later m show ?thesis by blast
      next
        case False
        with t have "t \<in> set (instants ys)" by simp
        with ys(2) have "ti < Sub n t" by blast
        moreover have "n \<le> m" using m by (simp add: c)
        then have "Sub n t \<le> Sub m t" by (rule Sub_mono)
        ultimately show ?thesis by simp
      qed
    qed
    with eq show ?thesis
      unfolding st by blast
  qed
qed

lemma length_instants: "length (instants xs) \<le> length xs"
  by (induction xs rule: instants.induct) auto

text \<open>
  C3. The capacity bound: under a limit above zero, after every sequence of \<open>Check\<close>
  calls from \<open>NewFloodControl\<close> the log of every key has at most \<open>limit\<close> entries, in
  particular the log of the key of a call that was just admitted. And of the events of
  a key that were admitted, those within the window that ends at the instant of the last
  call are at most \<open>limit\<close>; here the readings of the clock do not decrease from call to
  call, as those of \<open>time.Now()\<close> do.
\<close>

theorem capacity_bound:
  assumes "0 < mr"
  shows "int (length (log (snd (run (h, NewFloodControl ti mr) (calls @ [(now, k)]))) k')) \<le> mr
       \<and> (sorted (map fst (calls @ [(now, k)])) \<longrightarrow>
            int (length (filter (\<lambda>t. Sub now t \<le> ti)
              (admissions k' (calls @ [(now, k)])
                 (fst (run (h, NewFloodControl ti mr) (calls @ [(now, k)])))))) \<le> mr)"
proof -
  let ?calls = "calls @ [(now, k)]"
  let ?s = "snd (run (h, NewFloodControl ti mr) ?calls)"
  let ?adm = "admissions k' ?calls (fst (run (h, NewFloodControl ti mr) ?calls))"
  have "bounded ?s"
    using assms by (intro bounded_run wellformed_init bounded_init) simp
  moreover have "maxRequests (snd ?s) = mr"
    by (simp add: run_config NewFloodControl_def)
  ultimately have b: "int (length (log ?s k')) \<le> mr"
    by (simp add: bounded_def)
  have "int (length (filter (\<lambda>t. Sub now t \<le> ti) ?adm)) \<le> mr"
    if so: "sorted (map fst ?calls)"
  proof -
    from admissions_run [OF so, of k' h ti mr] obtain old where
      old: "?adm = old @ instants (log ?s k')"
        "\<forall>t \<in> set old. \<forall>m. (\<forall>c \<in> set ?calls. fst c \<le> m) \<longrightarrow> ti < Sub m t"
      by blast
    have "\<forall>c \<in> set ?calls. fst c \<le> now"
      using so by (auto simp: sorted_append)
    with old(2) have "\<forall>t \<in> set old. ti < Sub now t" by blast
    then have "filter (\<lambda>t. Sub now t \<le> ti) old = []"
      by (auto simp: filter_empty_conv)
    then have "filter (\<lambda>t. Sub now t \<le> ti) ?adm
        = filter (\<lambda>t. Sub now t \<le> ti) (instants (log ?s k'))"
      by (simp add: old(1))
    moreover have "length (filter (\<lambda>t. Sub now t \<le> ti) (instants (log ?s k')))
        \<le> length (log ?s k')"
      using length_filter_le [of "\<lambda>t. Sub now t \<le> ti" "instants (log ?s k')"]
        length_instants [of "log ?s k'"] by linarith
    ultimately show ?thesis
      using b by simp
  qed
  with b show ?thesis by blast
qed

theorem capacity_bound_witness:
  "(0 :: int) < 2
   \<and> sorted (map fst ([(0, 1), (1, 1), (2, 1)] @ [(11 :: instant, 1 :: key)]))
   \<and> fst (run ([], NewFloodControl 10 2) [(0, 1), (1, 1), (2, 1), (11, 1)])
       = [(True, None), (True, None), (False, Some LimitExceeded), (True, None)]
   \<and> log (snd (run ([], NewFloodControl 10 2) [(0, 1), (1, 1), (2, 1), (11, 1)])) 1
       = [Time 1, Time 11]
   \<and> admissions 1 [(0, 1), (1, 1), (2, 1), (11, 1)]
        (fst (run ([], NewFloodControl 10 2) [(0, 1), (1, 1), (2, 1), (11, 1)])) = [0, 1, 11]
   \<and> filter (\<lambda>t. Sub 11 t \<le> 10) [0, 1, 11] = [1, 11]
   \<and> int (length (log (snd (run ([], NewFloodControl 10 2)
        [(0, 1), (1, 1), (2, 1), (11, 1)])) 1)) \<le> 2
   \<and> int (length (filter (\<lambda>t. Sub 11 t \<le> 10)
        (admissions 1 [(0, 1), (1, 1), (2, 1), (11, 1)]
          (fst (run ([], NewFloodControl 10 2) [(0, 1), (1, 1), (2, 1), (11, 1)]))))) \<le> 2"
proof -
  have h: "(0 :: int) < 2" by simp
  have so: "sorted (map fst ([(0, 1), (1, 1), (2, 1)] @ [(11 :: instant, 1 :: key)]))"
    by simp
  have r: "fst (run ([], NewFloodControl 10 2) [(0, 1), (1, 1), (2, 1), (11, 1)])
       = [(True, None), (True, None), (False, Some LimitExceeded), (True, None)]"
      "log (snd (run ([], NewFloodControl 10 2) [(0, 1), (1, 1), (2, 1), (11, 1)])) 1
       = [Time 1, Time 11]"
    by (simp_all add: NewFloodControl_def Check_def list_New_def log_def Sub_def
        maxDuration_def minDuration_def)
  have a: "admissions 1 [(0, 1), (1, 1), (2, 1), (11, 1)]
      [(True, None), (True, None), (False, Some LimitExceeded), (True, None)] = [0, 1, 11]"
    by (simp add: admissions_def)
  have d: "Sub 11 0 = 11" "Sub 11 1 = 10" "Sub 11 11 = 0"
    by (simp_all add: Sub_def maxDuration_def minDuration_def)
  show ?thesis
    using h so capacity_bound [OF h, of "[]" 10 "[(0, 1), (1, 1), (2, 1)]" 11 1 1]
    by (simp add: r a d del: run.simps)
qed

text \<open>
  With a clock that runs backwards the count can exceed the limit: under a limit of one
  and a window of ten, the calls at 100 and 200 are admitted, and at a reading of 105
  both are within the window.
\<close>

lemma capacity_needs_clock_order:
  "fst (run ([], NewFloodControl 10 1) [(100, 1), (200, 1), (105, 1)])
     = [(True, None), (True, None), (False, Some LimitExceeded)]
   \<and> filter (\<lambda>t. Sub 105 t \<le> 10) [100, 200] = [100, 200]"
  by (simp add: NewFloodControl_def Check_def list_New_def Sub_def maxDuration_def
      minDuration_def)

end
